theory Spec2Isabelle
  imports Main
begin

section \<open>C integers\<close>

text \<open>
  The program computes with C \<open>int\<close>s. They are modelled as mathematical integers;
  signed overflow is undefined behaviour in C and is written out as the result \<open>None\<close>
  at every increment of a value that is not bounded by an earlier check.
  The operator \<open>%\<close> truncates towards zero (the remainder has the sign of the dividend),
  unlike \<open>mod\<close> of HOL, so it is modelled by \<open>c_rem\<close>.
\<close>

definition INT_MAX :: int where
  "INT_MAX = 2147483647"

definition INT_MIN :: int where
  "INT_MIN = - 2147483648"

definition c_rem :: "int \<Rightarrow> int \<Rightarrow> int" where
  "c_rem a b = sgn a * (\<bar>a\<bar> mod \<bar>b\<bar>)"

section \<open>Calendar\<close>

text \<open>\<^verbatim>\<open>typedef struct { int year; int month; int day; } Date;\<close>\<close>

record Date =
  year :: int
  month :: int
  day :: int

text \<open>
  \<^verbatim>\<open>return (year % 4 == 0 && year % 100 != 0) || (year % 400 == 0);\<close>
  The C function returns 1 or 0; every caller uses the result as a condition.
\<close>

definition is_leap_year :: "int \<Rightarrow> bool" where
  "is_leap_year y \<longleftrightarrow> (c_rem y 4 = 0 \<and> c_rem y 100 \<noteq> 0) \<or> c_rem y 400 = 0"

text \<open>The local table \<^verbatim>\<open>int days[] = {31, 28, 31, 30, 31, 30, 31, 31, 30, 31, 30, 31};\<close>\<close>

definition days :: "int list" where
  "days = [31, 28, 31, 30, 31, 30, 31, 31, 30, 31, 30, 31]"

text \<open>
  \<open>days_in_month\<close> reads \<^verbatim>\<open>days[month - 1]\<close> unless the month is February of a leap
  year. Outside 1..12 the read is out of the array's bounds (undefined behaviour): \<open>None\<close>.
\<close>

definition days_in_month :: "int \<Rightarrow> int \<Rightarrow> int option" where
  "days_in_month m y =
     (if m = 2 \<and> is_leap_year y then Some 29
      else if 1 \<le> m \<and> m \<le> 12 then Some (days ! nat (m - 1))
      else None)"

text \<open>
  \<open>increment_date\<close> updates the date in place; the model returns the new date.
  \<^verbatim>\<open>date->day++\<close> and \<^verbatim>\<open>date->year++\<close> overflow at \<open>INT_MAX\<close> (undefined behaviour:
  \<open>None\<close>);
  \<^verbatim>\<open>date->month++\<close> runs only after \<open>days_in_month\<close> has read the table, so the month is
  at most 12 there.
\<close>

definition increment_date :: "Date \<Rightarrow> Date option" where
  "increment_date date =
     (if day date \<ge> INT_MAX then None
      else
        let d1 = date\<lparr>day := day date + 1\<rparr> in
        case days_in_month (month d1) (year d1) of
          None \<Rightarrow> None
        | Some n \<Rightarrow>
            if day d1 > n then
              let d2 = d1\<lparr>day := 1, month := month d1 + 1\<rparr> in
              if month d2 > 12 then
                (if year d2 \<ge> INT_MAX then None
                 else Some (d2\<lparr>month := 1, year := year d2 + 1\<rparr>))
              else Some d2
            else Some d1)"

text \<open>\<open>compare_dates\<close> returns -1, 0 or 1.\<close>

definition compare_dates :: "Date \<Rightarrow> Date \<Rightarrow> int" where
  "compare_dates date1 date2 =
     (if year date1 \<noteq> year date2 then (if year date1 < year date2 then - 1 else 1)
      else if month date1 \<noteq> month date2 then (if month date1 < month date2 then - 1 else 1)
      else if day date1 \<noteq> day date2 then (if day date1 < day date2 then - 1 else 1)
      else 0)"

text \<open>\<open>increment_date\<close> applied \<open>n\<close> times in a row.\<close>

fun increment_times :: "nat \<Rightarrow> Date \<Rightarrow> Date option" where
  "increment_times 0 d = Some d"
| "increment_times (Suc n) d =
     (case increment_date d of None \<Rightarrow> None | Some d' \<Rightarrow> increment_times n d')"

section \<open>Parsing the arguments\<close>

text \<open>
  \<open>parse_date\<close> reads its argument with \<^verbatim>\<open>sscanf(date_str, "%d-%d-%d", ...)\<close> and \<open>main\<close>
  reads the third argument with \<open>atoi\<close>. Both are the C library's; they are modelled from
  the C standard: a \<^verbatim>\<open>%d\<close> directive and \<open>atoi\<close> skip white space (\<open>isspace\<close> of the C
  locale), accept an optional sign and then the longest run of decimal digits. A value that
  an \<open>int\<close> cannot hold is undefined behaviour for both (\<open>Out_of_range\<close>).
\<close>

definition is_space :: "char \<Rightarrow> bool" where
  "is_space c \<longleftrightarrow> c \<in> set [CHR 0x20, CHR 0x09, CHR 0x0A, CHR 0x0B, CHR 0x0C, CHR 0x0D]"

definition is_digit :: "char \<Rightarrow> bool" where
  "is_digit c \<longleftrightarrow> 48 \<le> (of_char c :: nat) \<and> (of_char c :: nat) \<le> 57"

definition decimal :: "string \<Rightarrow> int" where
  "decimal ds = foldl (\<lambda>acc c. acc * 10 + (of_char c - 48)) 0 ds"

datatype conversion = No_conversion | Out_of_range | Converted int string

definition scan_int :: "string \<Rightarrow> conversion" where
  "scan_int s =
     (let s1 = dropWhile is_space s;
          (neg, s2) = (case s1 of
                         [] \<Rightarrow> (False, s1)
                       | c # r \<Rightarrow> if c = CHR ''-'' then (True, r)
                                  else if c = CHR ''+'' then (False, r)
                                  else (False, s1));
          ds = takeWhile is_digit s2;
          rest = dropWhile is_digit s2
      in if ds = [] then No_conversion
         else
           let v = (if neg then - decimal ds else decimal ds)
           in if INT_MIN \<le> v \<and> v \<le> INT_MAX then Converted v rest else Out_of_range)"

text \<open>
  \<^verbatim>\<open>sscanf(s, "%d-%d-%d", &y, &m, &d)\<close>: the three conversions, with a literal \<open>-\<close> between
  them. \<open>Scan_three\<close> is the return value 3 with the values stored; \<open>Scan_fewer\<close> is any
  smaller return value (the input ended or did not match); whatever follows the third
  number is left unread.
\<close>

datatype scan_result = Scan_undefined | Scan_fewer | Scan_three int int int

definition sscanf_date :: "string \<Rightarrow> scan_result" where
  "sscanf_date s =
     (case scan_int s of
        No_conversion \<Rightarrow> Scan_fewer
      | Out_of_range \<Rightarrow> Scan_undefined
      | Converted y r1 \<Rightarrow>
          (case r1 of
             [] \<Rightarrow> Scan_fewer
           | c1 # r1' \<Rightarrow>
               if c1 \<noteq> CHR ''-'' then Scan_fewer
               else
                 (case scan_int r1' of
                    No_conversion \<Rightarrow> Scan_fewer
                  | Out_of_range \<Rightarrow> Scan_undefined
                  | Converted m r2 \<Rightarrow>
                      (case r2 of
                         [] \<Rightarrow> Scan_fewer
                       | c2 # r2' \<Rightarrow>
                           if c2 \<noteq> CHR ''-'' then Scan_fewer
                           else
                             (case scan_int r2' of
                                No_conversion \<Rightarrow> Scan_fewer
                              | Out_of_range \<Rightarrow> Scan_undefined
                              | Converted d r3 \<Rightarrow> Scan_three y m d)))))"

text \<open>
  \<open>parse_date\<close> returns 1 with the date stored (\<open>Success\<close>) or 0 (\<open>Failure\<close>), the
  latter when \<open>sscanf\<close> does not return 3 or when a field is out of its bounds; it is
  \<open>Undefined\<close> when \<open>sscanf\<close> is.
\<close>

datatype parse_result = Undefined | Failure | Success Date

definition parse_date :: "string \<Rightarrow> parse_result" where
  "parse_date date_str =
     (case sscanf_date date_str of
        Scan_undefined \<Rightarrow> Undefined
      | Scan_fewer \<Rightarrow> Failure
      | Scan_three y m d \<Rightarrow>
          if y < 1900 \<or> y > 2100 \<or> m < 1 \<or> m > 12 \<or> d < 1 \<or> d > 31 then Failure
          else Success \<lparr>year = y, month = m, day = d\<rparr>)"

text \<open>\<open>atoi\<close>: 0 when no number can be read, \<open>None\<close> when the number is out of range.\<close>

definition atoi :: "string \<Rightarrow> int option" where
  "atoi s =
     (case scan_int s of
        No_conversion \<Rightarrow> Some 0
      | Out_of_range \<Rightarrow> None
      | Converted v rest \<Rightarrow> Some v)"



section \<open>The environment\<close>

text \<open>
  \<open>rand\<close>, \<open>fopen\<close>, \<open>stat\<close> and \<open>system\<close> are the C library's, and what they return is
  not decided by the program. The world holds what the coming calls will return:
  \<^item> \<open>rand_seq\<close>: the values of the coming calls of \<open>rand()\<close>, each between 0 and
    \<open>RAND_MAX\<close> (a natural number; \<open>srand(time(NULL))\<close> only chooses the sequence);
  \<^item> \<open>fopen_seq\<close>: whether the coming calls of \<open>fopen\<close> return a stream;
  \<^item> \<open>system_seq\<close>: whether the coming calls of \<open>system\<close> return 0;
  \<^item> \<open>git_dir\<close>: whether \<^verbatim>\<open>stat(".git", ...)\<close> finds the directory;
  \<^item> and what the program has done to it: the records appended to the activity file and
    the commands handed to \<open>system\<close>, both in order.
  Texts written to the terminal and the 5 ms pause between days are left out.
\<close>

record activity_entry =
  entry_date :: Date
  entry_number :: int
  session_minutes :: int
  changed_lines :: int

datatype command =
    Git_init
  | Git_config_name
  | Git_config_email
  | Git_add
  | Git_commit Date int int string

record world =
  rand_seq :: "nat \<Rightarrow> nat"
  fopen_seq :: "nat \<Rightarrow> bool"
  system_seq :: "nat \<Rightarrow> bool"
  git_dir :: bool
  activity_file :: "activity_entry list"
  commands :: "command list"

definition c_rand :: "world \<Rightarrow> int \<times> world" where
  "c_rand w = (int (rand_seq w 0), w\<lparr>rand_seq := (\<lambda>i. rand_seq w (Suc i))\<rparr>)"

definition c_fopen :: "world \<Rightarrow> bool \<times> world" where
  "c_fopen w = (fopen_seq w 0, w\<lparr>fopen_seq := (\<lambda>i. fopen_seq w (Suc i))\<rparr>)"

definition c_system :: "command \<Rightarrow> world \<Rightarrow> bool \<times> world" where
  "c_system cmd w =
     (system_seq w 0,
      w\<lparr>system_seq := (\<lambda>i. system_seq w (Suc i)), commands := commands w @ [cmd]\<rparr>)"

section \<open>Creating commits\<close>

text \<open>
  \<open>init_git_repo\<close>: \<open>git init\<close> when there is no \<^verbatim>\<open>.git\<close> directory, then the two
  \<open>git config\<close> calls, whose results are ignored. The result is the C function's 1
  (\<open>True\<close>) or 0 (\<open>False\<close>).
\<close>

definition init_git_repo :: "world \<Rightarrow> bool \<times> world" where
  "init_git_repo w =
     (if \<not> git_dir w then
        let (ok, w1) = c_system Git_init w in
        if \<not> ok then (False, w1)
        else
          let (r2, w2) = c_system Git_config_name w1;
              (r3, w3) = c_system Git_config_email w2
          in (True, w3)
      else (True, w))"

definition messages :: "string list" where
  "messages =
     [''Refactor authentication module'',
      ''Add comprehensive unit tests'',
      ''Optimize database queries'',
      ''Fix memory leak in parser'',
      ''Implement rate limiting middleware'',
      ''Update API documentation'',
      ''Add input validation layer'',
      ''Improve error handling'',
      ''Optimize build pipeline'',
      ''Add monitoring metrics'',
      ''Implement caching strategy'',
      ''Fix cross-platform compatibility'',
      ''Add security headers'',
      ''Optimize image compression'',
      ''Implement async processing'',
      ''Add logging framework'',
      ''Fix race condition bug'',
      ''Update dependency versions'',
      ''Add feature toggles'',
      ''Implement data migration'',
      ''Add integration tests'',
      ''Fix CSS responsiveness'',
      ''Optimize network requests'',
      ''Add encryption support'']"

text \<open>
  \<^verbatim>\<open>int index = rand() % num_messages;\<close> with \<open>num_messages\<close> the length of the table;
  the index is within the table since \<open>rand()\<close> is not negative.
\<close>

definition generate_commit_message :: "world \<Rightarrow> string \<times> world" where
  "generate_commit_message w =
     (let num_messages = int (length messages);
          (r, w1) = c_rand w;
          index = c_rem r num_messages
      in (messages ! nat index, w1))"

text \<open>
  \<open>create_commit\<close>, in the order of the source: open the activity file (failure returns
  0 before anything is drawn); write the record with the session minutes
  \<^verbatim>\<open>(rand() % 180) + 30\<close> and the changed lines \<^verbatim>\<open>(rand() % 100) + 10\<close>; \<open>git add\<close>;
  draw the message; draw \<^verbatim>\<open>hour = rand() % 14 + 8\<close> and \<^verbatim>\<open>minute = rand() % 60\<close>;
  \<open>git commit\<close> with the forged date. The command holds the date, hour, minute and
  message that the source prints into the command line.
\<close>

definition create_commit :: "Date \<Rightarrow> int \<Rightarrow> world \<Rightarrow> bool \<times> world" where
  "create_commit date commit_number w =
     (let (file, w1) = c_fopen w in
      if \<not> file then (False, w1)
      else
        let (r1, w2) = c_rand w1;
            (r2, w3) = c_rand w2;
            w4 = w3\<lparr>activity_file := activity_file w3 @
                   [\<lparr>entry_date = date, entry_number = commit_number,
                     session_minutes = c_rem r1 180 + 30,
                     changed_lines = c_rem r2 100 + 10\<rparr>]\<rparr>;
            (added, w5) = c_system Git_add w4
        in if \<not> added then (False, w5)
           else
             let (message, w6) = generate_commit_message w5;
                 (r3, w7) = c_rand w6;
                 hour = c_rem r3 14 + 8;
                 (r4, w8) = c_rand w7;
                 minute = c_rem r4 60;
                 (committed, w9) = c_system (Git_commit date hour minute message) w8
             in if \<not> committed then (False, w9) else (True, w9))"

text \<open>
  What the claim on forged timestamps says of one command: a \<open>git commit\<close> carries an
  hour in 8..21 and a minute in 0..59.
\<close>

fun forged_time_ok :: "command \<Rightarrow> bool" where
  "forged_time_ok (Git_commit date hour minute message) \<longleftrightarrow>
     8 \<le> hour \<and> hour \<le> 21 \<and> 0 \<le> minute \<and> minute \<le> 59"
| "forged_time_ok c \<longleftrightarrow> True"

section \<open>The run\<close>

text \<open>
  The inner loop of \<open>main\<close>,
  \<^verbatim>\<open>for (int i = 1; i <= commits_today; i++) if (!create_commit(&current_date, i)) return 1;\<close>
  The result is \<open>False\<close> when \<open>main\<close> returns 1 from inside it. (\<open>i\<close> never exceeds
  \<open>commits_today\<close> by more than one, and \<open>commits_today\<close> is below \<open>INT_MAX\<close>, so \<open>i++\<close>
  does not overflow.)
\<close>

function commit_loop :: "Date \<Rightarrow> int \<Rightarrow> int \<Rightarrow> world \<Rightarrow> bool \<times> world" where
  "commit_loop date i commits_today w =
     (if i \<le> commits_today then
        (case create_commit date i w of
           (False, w') \<Rightarrow> (False, w')
         | (True, w') \<Rightarrow> commit_loop date (i + 1) commits_today w')
      else (True, w))"
  by pat_completeness auto
termination
  by (relation "measure (\<lambda>(date, i, commits_today, w). nat (commits_today + 1 - i))") auto

text \<open>
  The loop \<^verbatim>\<open>while (compare_dates(&current_date, &end_date) <= 0) { ... }\<close> of \<open>main\<close>, with
  the variables it changes as arguments. \<open>Loop_failed\<close> is the \<^verbatim>\<open>return 1\<close> inside the
  loop; \<open>Loop_done\<close> is the loop's exit, with \<open>total_commits\<close> and \<open>days_processed\<close> as
  they are then. The list \<open>visited\<close> is not a variable of the program: it records the
  values of \<open>current_date\<close> for which the loop body has run, in order, so that claims
  about the dates the loop visits can be stated.
  Undefined behaviour: \<^verbatim>\<open>max_commits_per_day + 1\<close> overflowing or being 0 (division by
  zero), the two counters overflowing, and that of \<open>increment_date\<close>.
\<close>

datatype loop_result = Loop_undefined | Loop_failed world | Loop_done world int int "Date list"

function main_loop ::
  "Date \<Rightarrow> Date \<Rightarrow> int \<Rightarrow> int \<Rightarrow> int \<Rightarrow> Date list \<Rightarrow> world \<Rightarrow> loop_result" where
  "main_loop current_date end_date max_commits_per_day total_commits days_processed visited w =
     (if compare_dates current_date end_date \<le> 0 then
        if max_commits_per_day \<ge> INT_MAX \<or> max_commits_per_day + 1 = 0 then Loop_undefined
        else
          let (r, w1) = c_rand w;
              commits_today = c_rem r (max_commits_per_day + 1);
              (created, w2) =
                (if commits_today > 0 then commit_loop current_date 1 commits_today w1
                 else (True, w1))
          in if \<not> created then Loop_failed w2
             else if commits_today > 0 \<and> total_commits + commits_today > INT_MAX
               then Loop_undefined
             else if days_processed \<ge> INT_MAX then Loop_undefined
             else
               (case increment_date current_date of
                  None \<Rightarrow> Loop_undefined
                | Some next_date \<Rightarrow>
                    main_loop next_date end_date max_commits_per_day
                      (if commits_today > 0 then total_commits + commits_today else total_commits)
                      (days_processed + 1) (visited @ [current_date]) w2)
      else Loop_done w total_commits days_processed visited)"
  by pat_completeness auto
termination
  apply (relation "measures
     [\<lambda>(c, e, m, t, n, v, w). nat (year e - year c + 1),
      \<lambda>(c, e, m, t, n, v, w). nat (13 - month c),
      \<lambda>(c, e, m, t, n, v, w).
         (case days_in_month (month c) (year c) of None \<Rightarrow> 0 | Some k \<Rightarrow> nat (k + 1 - day c))]")
   apply simp
  apply (auto simp: increment_date_def compare_dates_def Let_def split: if_splits option.splits)
  done

text \<open>
  \<open>main\<close>, with \<open>argv\<close> as the list of its strings (\<open>argc\<close> is its length) and the exit
  code as result. The checks come in the order of the source: the number of arguments,
  the start date, the end date, \<open>max_commits_per_day\<close>, the order of the two dates, then
  \<open>init_git_repo\<close> and the loop.
\<close>

datatype main_result = Main_undefined | Exit int world

definition main :: "string list \<Rightarrow> world \<Rightarrow> main_result" where
  "main argv w =
     (if int (length argv) \<noteq> 4 then Exit 1 w
      else
        case parse_date (argv ! 1) of
          Undefined \<Rightarrow> Main_undefined
        | Failure \<Rightarrow> Exit 1 w
        | Success start_date \<Rightarrow>
            (case parse_date (argv ! 2) of
               Undefined \<Rightarrow> Main_undefined
             | Failure \<Rightarrow> Exit 1 w
             | Success end_date \<Rightarrow>
                 (case atoi (argv ! 3) of
                    None \<Rightarrow> Main_undefined
                  | Some max_commits_per_day \<Rightarrow>
                      if max_commits_per_day < 1 \<or> max_commits_per_day > 50 then Exit 1 w
                      else if compare_dates start_date end_date > 0 then Exit 1 w
                      else
                        (case init_git_repo w of
                           (False, w1) \<Rightarrow> Exit 1 w1
                         | (True, w1) \<Rightarrow>
                             (case main_loop start_date end_date max_commits_per_day 0 0 [] w1 of
                                Loop_undefined \<Rightarrow> Main_undefined
                              | Loop_failed w2 \<Rightarrow> Exit 1 w2
                              | Loop_done w2 total_commits days_processed visited \<Rightarrow>
                                  Exit 0 w2)))))"

declare main_loop.simps [simp del] commit_loop.simps [simp del]

section \<open>Notions of the specification\<close>


text \<open>Every external call succeeds: \<open>fopen\<close> returns a stream and \<open>system\<close> returns 0.\<close>

definition all_ok :: "world \<Rightarrow> bool" where
  "all_ok w \<longleftrightarrow> (\<forall>i. fopen_seq w i) \<and> (\<forall>i. system_seq w i)"

text \<open>
  The commands issued up to the end of the loop, however it ends, carry hours and minutes
  in range.
\<close>

definition commit_times_ok :: "loop_result \<Rightarrow> bool" where
  "commit_times_ok r \<longleftrightarrow>
     (case r of
        Loop_undefined \<Rightarrow> True
      | Loop_failed w' \<Rightarrow> list_all forged_time_ok (commands w')
      | Loop_done w' t n v \<Rightarrow> list_all forged_time_ok (commands w'))"

section \<open>Properties of the calendar\<close>

lemma c_rem_zero_iff: "b \<noteq> 0 \<Longrightarrow> c_rem a b = 0 \<longleftrightarrow> b dvd a"
  by (auto simp: c_rem_def mod_eq_0_iff_dvd sgn_if split: if_splits)

lemma c_rem_nonneg: "0 \<le> a \<Longrightarrow> c_rem a b = a mod \<bar>b\<bar>"
  by (simp add: c_rem_def sgn_if)

lemma is_leap_year_iff: "is_leap_year y \<longleftrightarrow> (4 dvd y \<and> \<not> 100 dvd y) \<or> 400 dvd y"
  by (simp add: is_leap_year_def c_rem_zero_iff)

lemma month_cases:
  "1 \<le> m \<Longrightarrow> m \<le> 12 \<Longrightarrow>
     m = 1 \<or> m = 2 \<or> m = 3 \<or> m = 4 \<or> m = 5 \<or> m = 6 \<or> m = 7 \<or> m = 8 \<or> m = 9 \<or> m = 10 \<or> m = 11 \<or> m = (12::int)"
  by arith

lemma days_in_month_range:
  assumes "days_in_month m y = Some n"
  shows "1 \<le> m \<and> m \<le> 12 \<and> 28 \<le> n \<and> n \<le> 31"
proof (cases "m = 2 \<and> is_leap_year y")
  case True
  with assms show ?thesis by (simp add: days_in_month_def)
next
  case False
  with assms have m: "1 \<le> m" "m \<le> 12" and n: "n = days ! nat (m - 1)"
    by (auto simp: days_in_month_def split: if_splits)
  from month_cases [OF m] n show ?thesis
    by (auto simp: days_def)
qed

lemma days_in_month_Some:
  assumes "1 \<le> m" "m \<le> 12"
  shows "\<exists>n. days_in_month m y = Some n"
  using assms by (simp add: days_in_month_def)

lemma increment_date_eq:
  assumes "days_in_month (month d) (year d) = Some n" "day d < INT_MAX" "year d < INT_MAX"
  shows "increment_date d =
     Some (if day d + 1 \<le> n then d\<lparr>day := day d + 1\<rparr>
           else if month d < 12 then d\<lparr>day := 1, month := month d + 1\<rparr>
           else d\<lparr>day := 1, month := 1, year := year d + 1\<rparr>)"
  using assms days_in_month_range [OF assms(1)]
  by (simp add: increment_date_def Let_def)


lemma increment_times_add:
  "increment_times (a + b) d =
     (case increment_times a d of None \<Rightarrow> None | Some d' \<Rightarrow> increment_times b d')"
  by (induction a arbitrary: d) (auto split: option.splits)

lemma advance_within_month:
  assumes "days_in_month m y = Some n" "y < INT_MAX"
  shows "dd + int k \<le> n \<Longrightarrow>
    increment_times k \<lparr>year = y, month = m, day = dd\<rparr> = Some \<lparr>year = y, month = m, day = dd + int k\<rparr>"
proof (induction k arbitrary: dd)
  case 0
  then show ?case by simp
next
  case (Suc k)
  from days_in_month_range [OF assms(1)] Suc.prems have b: "dd < INT_MAX"
    by (simp add: INT_MAX_def)
  have "increment_date \<lparr>year = y, month = m, day = dd\<rparr> = Some \<lparr>year = y, month = m, day = dd + 1\<rparr>"
    using increment_date_eq [of "\<lparr>year = y, month = m, day = dd\<rparr>" n] assms b Suc.prems by simp
  moreover have "increment_times k \<lparr>year = y, month = m, day = dd + 1\<rparr>
       = Some \<lparr>year = y, month = m, day = dd + 1 + int k\<rparr>"
    using Suc.prems by (intro Suc.IH) simp
  ultimately show ?case by (simp add: add.assoc add.commute)
qed

lemma advance_to_next_month:
  assumes n: "days_in_month m y = Some n" and y: "y < INT_MAX"
  shows "increment_times (nat n) \<lparr>year = y, month = m, day = 1\<rparr> =
     Some (if m < 12 then \<lparr>year = y, month = m + 1, day = 1\<rparr>
           else \<lparr>year = y + 1, month = 1, day = 1\<rparr>)"
proof -
  from days_in_month_range [OF n] have r: "28 \<le> n" "n \<le> 31" by simp_all
  then have split: "nat n = nat (n - 1) + 1" by simp
  have a: "increment_times (nat (n - 1)) \<lparr>year = y, month = m, day = 1\<rparr>
       = Some \<lparr>year = y, month = m, day = n\<rparr>"
    using advance_within_month [OF n y, of 1 "nat (n - 1)"] r by simp
  have b: "increment_date \<lparr>year = y, month = m, day = n\<rparr> =
      Some (if m < 12 then \<lparr>year = y, month = m + 1, day = 1\<rparr>
           else \<lparr>year = y + 1, month = 1, day = 1\<rparr>)"
    using increment_date_eq [of "\<lparr>year = y, month = m, day = n\<rparr>" n] n y r
    by (simp add: INT_MAX_def)
  show ?thesis
    unfolding split increment_times_add a using b by simp
qed

lemma days_in_month_values:
  "days_in_month 1 y = Some 31"
  "days_in_month 2 y = Some (if is_leap_year y then 29 else 28)"
  "days_in_month 3 y = Some 31"
  "days_in_month 4 y = Some 30"
  "days_in_month 5 y = Some 31"
  "days_in_month 6 y = Some 30"
  "days_in_month 7 y = Some 31"
  "days_in_month 8 y = Some 31"
  "days_in_month 9 y = Some 30"
  "days_in_month 10 y = Some 31"
  "days_in_month 11 y = Some 30"
  "days_in_month 12 y = Some 31"
  by (simp_all add: days_in_month_def days_def)

lemma year_of_increments:
  assumes y: "y < INT_MAX"
  shows "increment_times (31 + (nat (if is_leap_year y then 29 else 28) + (31 + (30 + (31 + (30 + (31 + (31 + (30 + (31 + (30 + 31)))))))))))
           \<lparr>year = y, month = 1, day = 1\<rparr> = Some \<lparr>year = y + 1, month = 1, day = 1\<rparr>"
proof -
  note step = advance_to_next_month [OF _ y]
  have s:
    "increment_times 31 \<lparr>year = y, month = 1, day = 1\<rparr> = Some \<lparr>year = y, month = 2, day = 1\<rparr>"
    "increment_times (nat (if is_leap_year y then 29 else 28)) \<lparr>year = y, month = 2, day = 1\<rparr> = Some \<lparr>year = y, month = 3, day = 1\<rparr>"
    "increment_times 31 \<lparr>year = y, month = 3, day = 1\<rparr> = Some \<lparr>year = y, month = 4, day = 1\<rparr>"
    "increment_times 30 \<lparr>year = y, month = 4, day = 1\<rparr> = Some \<lparr>year = y, month = 5, day = 1\<rparr>"
    "increment_times 31 \<lparr>year = y, month = 5, day = 1\<rparr> = Some \<lparr>year = y, month = 6, day = 1\<rparr>"
    "increment_times 30 \<lparr>year = y, month = 6, day = 1\<rparr> = Some \<lparr>year = y, month = 7, day = 1\<rparr>"
    "increment_times 31 \<lparr>year = y, month = 7, day = 1\<rparr> = Some \<lparr>year = y, month = 8, day = 1\<rparr>"
    "increment_times 31 \<lparr>year = y, month = 8, day = 1\<rparr> = Some \<lparr>year = y, month = 9, day = 1\<rparr>"
    "increment_times 30 \<lparr>year = y, month = 9, day = 1\<rparr> = Some \<lparr>year = y, month = 10, day = 1\<rparr>"
    "increment_times 31 \<lparr>year = y, month = 10, day = 1\<rparr> = Some \<lparr>year = y, month = 11, day = 1\<rparr>"
    "increment_times 30 \<lparr>year = y, month = 11, day = 1\<rparr> = Some \<lparr>year = y, month = 12, day = 1\<rparr>"
    "increment_times 31 \<lparr>year = y, month = 12, day = 1\<rparr> = Some \<lparr>year = y + 1, month = 1, day = 1\<rparr>"
    using step [OF days_in_month_values(1)] step [OF days_in_month_values(2)]
      step [OF days_in_month_values(3)] step [OF days_in_month_values(4)]
      step [OF days_in_month_values(5)] step [OF days_in_month_values(6)]
      step [OF days_in_month_values(7)] step [OF days_in_month_values(8)]
      step [OF days_in_month_values(9)] step [OF days_in_month_values(10)]
      step [OF days_in_month_values(11)] step [OF days_in_month_values(12)]
    by simp_all
  show ?thesis
    by (simp only: increment_times_add s option.case)
qed

subsection \<open>Leap years\<close>

text \<open>
  Claim C8. \<open>is_leap_year\<close> implements the Gregorian rule: for every year \<open>y\<close> it holds
  exactly when \<open>y\<close> is divisible by 4 and not by 100, or divisible by 400. In particular
  2000 and 2024 are leap years, 1900 and 2023 are not.
\<close>

theorem is_leap_year_gregorian:
  "(is_leap_year y \<longleftrightarrow> (4 dvd y \<and> \<not> 100 dvd y) \<or> 400 dvd y) \<and>
   is_leap_year 2000 \<and> \<not> is_leap_year 1900 \<and> is_leap_year 2024 \<and> \<not> is_leap_year 2023"
  by (simp add: is_leap_year_iff)

theorem is_leap_year_gregorian_witness:
  "\<not> is_leap_year 2100 \<and> is_leap_year 2400 \<and> is_leap_year (- 4)"
  using is_leap_year_gregorian [of 2100] is_leap_year_gregorian [of 2400]
    is_leap_year_gregorian [of "- 4"]
  by simp

subsection \<open>A date and its successor\<close>

text \<open>
  Claim C7. For every date \<open>d\<close> that \<open>parse_date\<close> accepts (year in 1900..2100, month in
  1..12, day in 1..31), \<open>increment_date\<close> is defined on \<open>d\<close> and \<open>compare_dates\<close> of \<open>d\<close>
  and its successor is -1 ("less").
\<close>

theorem compare_increment_less:
  assumes "1900 \<le> year d" "year d \<le> 2100" "1 \<le> month d" "month d \<le> 12" "1 \<le> day d" "day d \<le> 31"
  shows "\<exists>d'. increment_date d = Some d' \<and> compare_dates d d' = - 1"
proof -
  from days_in_month_Some [OF assms(3,4)] obtain n where n: "days_in_month (month d) (year d) = Some n" by blast
  have "day d < INT_MAX" "year d < INT_MAX" using assms by (simp_all add: INT_MAX_def)
  from increment_date_eq [OF n this] assms show ?thesis
    by (simp add: compare_dates_def)
qed

theorem compare_increment_less_witness:
  "\<exists>d'. increment_date \<lparr>year = 2024, month = 12, day = 31\<rparr> = Some d' \<and>
     compare_dates \<lparr>year = 2024, month = 12, day = 31\<rparr> d' = - 1"
  using compare_increment_less [of "\<lparr>year = 2024, month = 12, day = 31\<rparr>"]
  by simp

text \<open>
  Claim C10. \<open>increment_date\<close> restores day-validity: for every date with month in 1..12
  and day in 1..31 (the year any \<open>int\<close> below \<open>INT_MAX\<close>, so every date that \<open>parse_date\<close>
  accepts, 2024-02-30 included), the incremented date has its month in 1..12, its year
  is the old year or the next one, and its day lies between 1 and the length of its month.
\<close>

theorem increment_restores_validity:
  assumes "1 \<le> month d" "month d \<le> 12" "1 \<le> day d" "day d \<le> 31" "year d < INT_MAX"
  shows "\<exists>d' n. increment_date d = Some d' \<and> 1 \<le> month d' \<and> month d' \<le> 12 \<and>
           year d \<le> year d' \<and> year d' \<le> year d + 1 \<and>
           days_in_month (month d') (year d') = Some n \<and> 1 \<le> day d' \<and> day d' \<le> n"
proof -
  from days_in_month_Some [OF assms(1,2)] obtain n where n: "days_in_month (month d) (year d) = Some n" by blast
  have b: "day d < INT_MAX" using assms by (simp_all add: INT_MAX_def)
  note inc = increment_date_eq [OF n b assms(5)]
  show ?thesis
  proof (cases "day d + 1 \<le> n")
    case True
    with inc n assms show ?thesis by simp
  next
    case False
    show ?thesis
    proof (cases "month d < 12")
      case True
      with assms have "1 \<le> month d + 1" "month d + 1 \<le> 12" by simp_all
      from days_in_month_Some [OF this] obtain k where k: "days_in_month (month d + 1) (year d) = Some k" by blast
      from days_in_month_range [OF k] have "1 \<le> k" by simp
      with inc k True \<open>\<not> day d + 1 \<le> n\<close> assms show ?thesis by simp
    next
      case F2: False
      from days_in_month_Some [of 1 "year d + 1"] obtain k where k: "days_in_month 1 (year d + 1) = Some k" by auto
      from days_in_month_range [OF k] have "1 \<le> k" by simp
      with inc k F2 False assms show ?thesis by simp
    qed
  qed
qed

theorem increment_restores_validity_witness:
  "\<exists>d' n. increment_date \<lparr>year = 2024, month = 2, day = 30\<rparr> = Some d' \<and>
     1 \<le> month d' \<and> month d' \<le> 12 \<and> 2024 \<le> year d' \<and> year d' \<le> 2025 \<and>
     days_in_month (month d') (year d') = Some n \<and> 1 \<le> day d' \<and> day d' \<le> n"
  using increment_restores_validity [of "\<lparr>year = 2024, month = 2, day = 30\<rparr>"]
  by (simp add: INT_MAX_def)

subsection \<open>A whole year of increments\<close>

text \<open>
  Claim C6. \<open>increment_date\<close> applied 365 times to January 1 of a year that is not a leap
  year yields January 1 of the following year, and applied 366 times to January 1 of a
  leap year yields January 1 of the following year (for every year below \<open>INT_MAX\<close>, the
  following year being an \<open>int\<close>).
\<close>

theorem increment_full_year:
  assumes "y < INT_MAX"
  shows "(\<not> is_leap_year y \<longrightarrow>
            increment_times 365 \<lparr>year = y, month = 1, day = 1\<rparr> = Some \<lparr>year = y + 1, month = 1, day = 1\<rparr>) \<and>
         (is_leap_year y \<longrightarrow>
            increment_times 366 \<lparr>year = y, month = 1, day = 1\<rparr> = Some \<lparr>year = y + 1, month = 1, day = 1\<rparr>)"
  using year_of_increments [OF assms] by (cases "is_leap_year y") simp_all

theorem increment_full_year_witness:
  "increment_times 365 \<lparr>year = 2023, month = 1, day = 1\<rparr> = Some \<lparr>year = 2024, month = 1, day = 1\<rparr> \<and>
   increment_times 366 \<lparr>year = 2024, month = 1, day = 1\<rparr> = Some \<lparr>year = 2025, month = 1, day = 1\<rparr>"
  using increment_full_year [of 2023] increment_full_year [of 2024]
  by (simp add: INT_MAX_def is_leap_year_iff)

section \<open>Properties of \<open>parse_date\<close>\<close>








lemma parse_date_Success_bounds:
  "parse_date s = Success d \<Longrightarrow>
     1900 \<le> year d \<and> year d \<le> 2100 \<and> 1 \<le> month d \<and> month d \<le> 12 \<and>
     1 \<le> day d \<and> day d \<le> 31"
  by (auto simp: parse_date_def split: scan_result.splits if_splits)




section \<open>Properties of \<open>create_commit\<close>\<close>

lemmas create_commit_unfold =
  create_commit_def c_fopen_def c_rand_def c_system_def generate_commit_message_def Let_def

lemma c_rem_bounds: "0 \<le> a \<Longrightarrow> 0 < b \<Longrightarrow> 0 \<le> c_rem a b \<and> c_rem a b < b"
  by (simp add: c_rem_nonneg)

lemma hour_bounds: "8 \<le> c_rem (int k) 14 + 8 \<and> c_rem (int k) 14 + 8 \<le> 21"
  using c_rem_bounds [of "int k" 14] by simp

lemma minute_bounds: "0 \<le> c_rem (int k) 60 \<and> c_rem (int k) 60 \<le> 59"
  using c_rem_bounds [of "int k" 60] by simp

text \<open>The record that \<open>create_commit\<close> appends once the file is open.\<close>

lemma create_commit_entry:
  assumes "fopen_seq w 0"
  shows "\<exists>e. activity_file (snd (create_commit date n w)) = activity_file w @ [e] \<and>
           entry_date e = date \<and> entry_number e = n \<and>
           session_minutes e = int (rand_seq w 0 mod 180) + 30 \<and>
           changed_lines e = int (rand_seq w 1 mod 100) + 10"
  using assms
  by (simp add: create_commit_unfold c_rem_nonneg zmod_int split: prod.splits)

lemma create_commit_no_file:
  "\<not> fopen_seq w 0 \<Longrightarrow> activity_file (snd (create_commit date n w)) = activity_file w"
  by (simp add: create_commit_unfold)

lemma create_commit_commands_exact:
  "commands (snd (create_commit date n w)) =
     (if \<not> fopen_seq w 0 then commands w
      else if \<not> system_seq w 0 then commands w @ [Git_add]
      else commands w @ [Git_add,
        Git_commit date (c_rem (int (rand_seq w (Suc (Suc (Suc 0))))) 14 + 8)
          (c_rem (int (rand_seq w (Suc (Suc (Suc (Suc 0)))))) 60)
          (messages ! nat (c_rem (int (rand_seq w (Suc (Suc 0)))) (int (length messages))))])"
  by (simp add: create_commit_unfold split: prod.splits)

lemma create_commit_commands:
  "\<exists>hour minute message. 8 \<le> hour \<and> hour \<le> 21 \<and> 0 \<le> minute \<and> minute \<le> 59 \<and>
     commands (snd (create_commit date n w)) =
     (if \<not> fopen_seq w 0 then commands w
      else if \<not> system_seq w 0 then commands w @ [Git_add]
      else commands w @ [Git_add, Git_commit date hour minute message])"
  unfolding create_commit_commands_exact using hour_bounds minute_bounds by blast

lemma create_commit_result:
  "fst (create_commit date n w) \<longleftrightarrow> fopen_seq w 0 \<and> system_seq w 0 \<and> system_seq w 1"
  by (simp add: create_commit_unfold split: prod.splits)

text \<open>
  Claim C2 says that the session minutes range over 30..210, every value of 30..210
  being produced by some state of the generator; the comment in the source says
  \<open>30-210 minutes\<close> too. The expression \<^verbatim>\<open>(rand() % 180) + 30\<close> ranges over 30..209: for
  every world, the record that \<open>create_commit\<close> appends (when the file opens; nothing is
  appended otherwise) has its session minutes in 30..209, so 210 is never produced, and
  every value of 30..209 is produced in some world whose generator stays within
  0..32767, the least \<open>RAND_MAX\<close> the C standard allows.
\<close>

theorem session_minutes_at_most_209:
  "(fopen_seq w 0 \<longrightarrow>
      (\<exists>e. activity_file (snd (create_commit date n w)) = activity_file w @ [e] \<and>
           30 \<le> session_minutes e \<and> session_minutes e \<le> 209)) \<and>
   (\<not> fopen_seq w 0 \<longrightarrow> activity_file (snd (create_commit date n w)) = activity_file w) \<and>
   (30 \<le> v \<and> v \<le> 209 \<longrightarrow>
      (\<exists>w' e. (\<forall>i. rand_seq w' i \<le> 32767) \<and>
         activity_file (snd (create_commit date n w')) = activity_file w' @ [e] \<and>
         session_minutes e = v))"
proof -
  have 1: "fopen_seq w 0 \<longrightarrow>
      (\<exists>e. activity_file (snd (create_commit date n w)) = activity_file w @ [e] \<and>
           30 \<le> session_minutes e \<and> session_minutes e \<le> 209)"
  proof
    assume f: "fopen_seq w 0"
    from create_commit_entry [OF f, of date n] obtain e where
      e: "activity_file (snd (create_commit date n w)) = activity_file w @ [e]"
         "session_minutes e = int (rand_seq w 0 mod 180) + 30" by blast
    have "rand_seq w 0 mod 180 < 180" by simp
    then have "int (rand_seq w 0 mod 180) \<le> 179" by linarith
    with e show "\<exists>e. activity_file (snd (create_commit date n w)) = activity_file w @ [e] \<and>
           30 \<le> session_minutes e \<and> session_minutes e \<le> 209" by auto
  qed
  have 2: "30 \<le> v \<and> v \<le> 209 \<longrightarrow>
      (\<exists>w' e. (\<forall>i. rand_seq w' i \<le> 32767) \<and>
         activity_file (snd (create_commit date n w')) = activity_file w' @ [e] \<and>
         session_minutes e = v)"
  proof
    assume v: "30 \<le> v \<and> v \<le> 209"
    let ?w = "\<lparr>rand_seq = (\<lambda>i. nat (v - 30)), fopen_seq = (\<lambda>i. True),
               system_seq = (\<lambda>i. True), git_dir = True, activity_file = [], commands = []\<rparr>"
    from create_commit_entry [of ?w date n] v
    have "\<exists>e. activity_file (snd (create_commit date n ?w)) = activity_file ?w @ [e] \<and>
            session_minutes e = v"
      by auto
    moreover have "\<forall>i. rand_seq ?w i \<le> 32767" using v by auto
    ultimately show "\<exists>w' e. (\<forall>i. rand_seq w' i \<le> 32767) \<and>
         activity_file (snd (create_commit date n w')) = activity_file w' @ [e] \<and>
         session_minutes e = v" by blast
  qed
  from 1 2 show ?thesis by (simp add: create_commit_no_file)
qed

theorem session_minutes_at_most_209_witness:
  "\<exists>e. activity_file (snd (create_commit \<lparr>year = 2024, month = 1, day = 1\<rparr> 1
       \<lparr>rand_seq = (\<lambda>i. 179), fopen_seq = (\<lambda>i. True), system_seq = (\<lambda>i. True),
        git_dir = True, activity_file = [], commands = []\<rparr>)) = [e] \<and>
     30 \<le> session_minutes e \<and> session_minutes e \<le> 209"
  using session_minutes_at_most_209 [of
       "\<lparr>rand_seq = (\<lambda>i. 179), fopen_seq = (\<lambda>i. True), system_seq = (\<lambda>i. True),
        git_dir = True, activity_file = [], commands = []\<rparr>"
       "\<lparr>year = 2024, month = 1, day = 1\<rparr>" 1 30]
  by simp

text \<open>
  Claim C3 says that the changed lines range over 10..110, every value of 10..110 being
  produced by some state of the generator; the comment in the source says \<open>10-110 lines\<close>
  too. The expression \<^verbatim>\<open>(rand() % 100) + 10\<close> ranges over 10..109: for every world, the
  record that \<open>create_commit\<close> appends has its changed lines in 10..109, so 110 is never
  produced, and every value of 10..109 is produced in some world.
\<close>

theorem changed_lines_at_most_109:
  "(fopen_seq w 0 \<longrightarrow>
      (\<exists>e. activity_file (snd (create_commit date n w)) = activity_file w @ [e] \<and>
           10 \<le> changed_lines e \<and> changed_lines e \<le> 109)) \<and>
   (\<not> fopen_seq w 0 \<longrightarrow> activity_file (snd (create_commit date n w)) = activity_file w) \<and>
   (10 \<le> v \<and> v \<le> 109 \<longrightarrow>
      (\<exists>w' e. (\<forall>i. rand_seq w' i \<le> 32767) \<and>
         activity_file (snd (create_commit date n w')) = activity_file w' @ [e] \<and>
         changed_lines e = v))"
proof -
  have 1: "fopen_seq w 0 \<longrightarrow>
      (\<exists>e. activity_file (snd (create_commit date n w)) = activity_file w @ [e] \<and>
           10 \<le> changed_lines e \<and> changed_lines e \<le> 109)"
  proof
    assume f: "fopen_seq w 0"
    from create_commit_entry [OF f, of date n] obtain e where
      e: "activity_file (snd (create_commit date n w)) = activity_file w @ [e]"
         "changed_lines e = int (rand_seq w 1 mod 100) + 10" by blast
    have "rand_seq w 1 mod 100 < 100" by simp
    then have "int (rand_seq w 1 mod 100) \<le> 99" by linarith
    with e show "\<exists>e. activity_file (snd (create_commit date n w)) = activity_file w @ [e] \<and>
           10 \<le> changed_lines e \<and> changed_lines e \<le> 109" by auto
  qed
  have 2: "10 \<le> v \<and> v \<le> 109 \<longrightarrow>
      (\<exists>w' e. (\<forall>i. rand_seq w' i \<le> 32767) \<and>
         activity_file (snd (create_commit date n w')) = activity_file w' @ [e] \<and>
         changed_lines e = v)"
  proof
    assume v: "10 \<le> v \<and> v \<le> 109"
    let ?w = "\<lparr>rand_seq = (\<lambda>i. nat (v - 10)), fopen_seq = (\<lambda>i. True),
               system_seq = (\<lambda>i. True), git_dir = True, activity_file = [], commands = []\<rparr>"
    from create_commit_entry [of ?w date n] v
    have "\<exists>e. activity_file (snd (create_commit date n ?w)) = activity_file ?w @ [e] \<and>
            changed_lines e = v"
      by auto
    moreover have "\<forall>i. rand_seq ?w i \<le> 32767" using v by auto
    ultimately show "\<exists>w' e. (\<forall>i. rand_seq w' i \<le> 32767) \<and>
         activity_file (snd (create_commit date n w')) = activity_file w' @ [e] \<and>
         changed_lines e = v" by blast
  qed
  from 1 2 show ?thesis by (simp add: create_commit_no_file)
qed

theorem changed_lines_at_most_109_witness:
  "\<exists>e. activity_file (snd (create_commit \<lparr>year = 2024, month = 1, day = 1\<rparr> 1
       \<lparr>rand_seq = (\<lambda>i. 99), fopen_seq = (\<lambda>i. True), system_seq = (\<lambda>i. True),
        git_dir = True, activity_file = [], commands = []\<rparr>)) = [e] \<and>
     10 \<le> changed_lines e \<and> changed_lines e \<le> 109"
  using changed_lines_at_most_109 [of
       "\<lparr>rand_seq = (\<lambda>i. 99), fopen_seq = (\<lambda>i. True), system_seq = (\<lambda>i. True),
        git_dir = True, activity_file = [], commands = []\<rparr>"
       "\<lparr>year = 2024, month = 1, day = 1\<rparr>" 1 10]
  by simp

section \<open>Properties of the loop\<close>

lemma compare_dates_le:
  "compare_dates a b \<le> 0 \<longleftrightarrow>
     year a < year b \<or> (year a = year b \<and> (month a < month b \<or> (month a = month b \<and> day a \<le> day b)))"
  by (auto simp: compare_dates_def)



lemma compare_dates_antisym:
  "compare_dates a b \<le> 0 \<Longrightarrow> compare_dates b a \<le> 0 \<Longrightarrow> a = (b :: Date)"
  unfolding compare_dates_le by (cases a, cases b) auto

lemma compare_dates_total: "compare_dates a b \<le> 0 \<or> compare_dates b a \<le> 0"
  unfolding compare_dates_le by auto

lemma date_loop_induct:
  assumes step: "\<And>c. (\<And>c'. compare_dates c e \<le> 0 \<Longrightarrow> increment_date c = Some c' \<Longrightarrow> P c') \<Longrightarrow> P c"
  shows "P c"
proof -
  let ?R = "measures
     [\<lambda>c. nat (year e - year c + 1), \<lambda>c. nat (13 - month c),
      \<lambda>c. (case days_in_month (month c) (year c) of None \<Rightarrow> 0 | Some k \<Rightarrow> nat (k + 1 - day c))]"
  have wf: "wf ?R" by simp
  show ?thesis
  proof (induction c rule: wf_induct_rule [OF wf])
    case (1 c)
    show ?case
    proof (rule step)
      fix c' assume "compare_dates c e \<le> 0" "increment_date c = Some c'"
      then have "(c', c) \<in> ?R"
        by (auto simp: increment_date_def compare_dates_def Let_def split: if_splits option.splits)
      then show "P c'" by (rule 1)
    qed
  qed
qed









lemma draw_bounds:
  "0 \<le> c_rem (int r) b" "0 < b \<Longrightarrow> c_rem (int r) b < b"
  by (cases "b = 0"; simp add: c_rem_nonneg)+

lemma main_loop_exit:
  "\<not> compare_dates c e \<le> 0 \<Longrightarrow> main_loop c e mx t n v w = Loop_done w t n v"
  by (subst main_loop.simps) simp

lemma main_loop_step:
  assumes "compare_dates c e \<le> 0"
  shows "main_loop c e mx t n v w =
    (let k = c_rem (int (rand_seq w 0)) (mx + 1);
         res = (if k > 0 then commit_loop c 1 k (snd (c_rand w)) else (True, snd (c_rand w)))
     in if mx \<ge> INT_MAX \<or> mx + 1 = 0 then Loop_undefined
        else if \<not> fst res then Loop_failed (snd res)
        else if k > 0 \<and> t + k > INT_MAX then Loop_undefined
        else if n \<ge> INT_MAX then Loop_undefined
        else (case increment_date c of
                None \<Rightarrow> Loop_undefined
              | Some c' \<Rightarrow> main_loop c' e mx (t + k) (n + 1) (v @ [c]) (snd res)))"
proof -
  have k0: "\<not> 0 < c_rem (int (rand_seq w 0)) (mx + 1) \<Longrightarrow> c_rem (int (rand_seq w 0)) (mx + 1) = 0"
    using draw_bounds(1) [where r = "rand_seq w 0" and b = "mx + 1"] by simp
  show ?thesis
    using assms
    by (subst main_loop.simps)
       (auto simp: Let_def c_rand_def k0 split: prod.splits option.splits)
qed


lemma create_commit_all_ok:
  assumes "all_ok w"
  shows "fst (create_commit date i w) \<and> all_ok (snd (create_commit date i w))"
  using assms
  by (simp add: all_ok_def create_commit_unfold split: prod.splits)

lemma commit_loop_all_ok:
  "all_ok w \<Longrightarrow> fst (commit_loop date i k w) \<and> all_ok (snd (commit_loop date i k w))"
proof (induction date i k w rule: commit_loop.induct)
  case (1 date i k w)
  show ?case
  proof (cases "i \<le> k")
    case True
    from create_commit_all_ok [OF "1.prems", of date i]
    obtain w' where c: "create_commit date i w = (True, w')" and ok: "all_ok w'"
      by (cases "create_commit date i w") auto
    from "1.IH" [OF True c [symmetric] _ ok] True c show ?thesis
      by (subst (1 2) commit_loop.simps) simp
  next
    case False
    with "1.prems" show ?thesis by (subst (1 2) commit_loop.simps) simp
  qed
qed




lemma increment_date_accepted:
  assumes "1 \<le> month c" "month c \<le> 12" "1 \<le> day c" "day c \<le> 31" "year c < INT_MAX"
  shows "\<exists>c'. increment_date c = Some c' \<and> 1 \<le> month c' \<and> month c' \<le> 12 \<and>
      1 \<le> day c' \<and> day c' \<le> 31 \<and>
      year c * 10000 + month c * 100 + day c < year c' * 10000 + month c' * 100 + day c'"
proof -
  from days_in_month_Some [OF assms(1,2)] obtain n where
    n: "days_in_month (month c) (year c) = Some n" by blast
  have "day c < INT_MAX" using assms(4) by (simp add: INT_MAX_def)
  from increment_date_eq [OF n this assms(5)] days_in_month_range [OF n] assms
  show ?thesis by auto
qed

lemma accepted_rank_mono:
  assumes "compare_dates c e \<le> 0" "month c \<le> 12" "day c \<le> 31" "1 \<le> month e" "1 \<le> day e"
  shows "year c * 10000 + month c * 100 + day c \<le> year e * 10000 + month e * 100 + day e
      \<and> year c \<le> year e"
  using assms unfolding compare_dates_le by auto

lemma c_rand_all_ok: "all_ok w \<Longrightarrow> all_ok (snd (c_rand w))"
  by (simp add: all_ok_def c_rand_def)

lemma main_loop_all_ok:
  assumes w: "all_ok w" and mx: "1 \<le> mx" "mx \<le> 50"
    and e: "1 \<le> month e" "month e \<le> 12" "1 \<le> day e" "day e \<le> 31" "year e \<le> 2100"
  shows "all_ok w \<Longrightarrow> 1 \<le> month c \<Longrightarrow> month c \<le> 12 \<Longrightarrow> 1 \<le> day c \<Longrightarrow> day c \<le> 31 \<Longrightarrow>
    0 \<le> t \<Longrightarrow> t \<le> 50 * n \<Longrightarrow> 0 \<le> n \<Longrightarrow>
    n + 19000101 \<le> year c * 10000 + month c * 100 + day c \<Longrightarrow>
    \<exists>w' t' n' v'. main_loop c e mx t n v w = Loop_done w' t' n' v' \<and> all_ok w'"
proof (induction c arbitrary: t n v w rule: date_loop_induct [where e = e])
  case (1 c)
  show ?case
  proof (cases "compare_dates c e \<le> 0")
    case True
    let ?k = "c_rem (int (rand_seq w 0)) (mx + 1)"
    let ?res = "if ?k > 0 then commit_loop c 1 ?k (snd (c_rand w)) else (True, snd (c_rand w))"
    have k: "0 \<le> ?k" "?k \<le> mx"
      using draw_bounds [where r = "rand_seq w 0" and b = "mx + 1"] mx by simp_all
    have res: "fst ?res" "all_ok (snd ?res)"
      using commit_loop_all_ok [OF c_rand_all_ok [OF "1.prems"(1)], of c 1 ?k]
        c_rand_all_ok [OF "1.prems"(1)] by simp_all
    from accepted_rank_mono [OF True "1.prems"(3,5) e(1,3)] e
    have r: "year c * 10000 + month c * 100 + day c \<le> 21001231" "year c \<le> 2100" by simp_all
    with "1.prems" have n: "n \<le> 2001130" by simp
    have y: "year c < INT_MAX" using r by (simp add: INT_MAX_def)
    from increment_date_accepted [OF "1.prems"(2-5) y] obtain c' where
      c': "increment_date c = Some c'" "1 \<le> month c'" "month c' \<le> 12" "1 \<le> day c'" "day c' \<le> 31"
        "year c * 10000 + month c * 100 + day c < year c' * 10000 + month c' * 100 + day c'"
      by blast
    have step: "main_loop c e mx t n v w = main_loop c' e mx (t + ?k) (n + 1) (v @ [c]) (snd ?res)"
      unfolding main_loop_step [OF True] Let_def
      using res(1) k mx n "1.prems"(6,7) c'(1) by (simp add: INT_MAX_def)
    have "\<exists>w' t' n' v'. main_loop c' e mx (t + ?k) (n + 1) (v @ [c]) (snd ?res)
        = Loop_done w' t' n' v' \<and> all_ok w'"
      using "1.prems" k mx c'
      by (intro "1.IH" [OF True c'(1) res(2) c'(2-5)]) simp_all
    with step show ?thesis by simp
  next
    case False
    with "1.prems"(1) show ?thesis by (simp add: main_loop_exit)
  qed
qed




section \<open>The exit code\<close>

lemma c_system_all_ok: "all_ok w \<Longrightarrow> fst (c_system cmd w) \<and> all_ok (snd (c_system cmd w))"
  by (simp add: all_ok_def c_system_def)

lemma init_git_repo_all_ok:
  "all_ok w \<Longrightarrow> fst (init_git_repo w) \<and> all_ok (snd (init_git_repo w))"
  by (simp add: all_ok_def init_git_repo_def c_system_def Let_def split: prod.splits)

text \<open>
  The exit code on arguments that are read without overflow. With three arguments,
  \<open>main\<close> exits with code 1 (and has called nothing) when the start date is rejected by
  \<open>parse_date\<close>; when the end date is; when \<open>max_commits_per_day\<close>, as read by \<open>atoi\<close>,
  is below 1 or above 50; and when the start date is after the end date. It exits with
  code 0 when both dates are accepted, the start is not after the end,
  \<open>max_commits_per_day\<close> is in 1..50 and every external call succeeds.
\<close>

lemma main_exit_code:
  assumes "length argv = 4"
  shows "(parse_date (argv ! 1) = Failure \<longrightarrow> main argv w = Exit 1 w) \<and>
    (\<forall>start_date. parse_date (argv ! 1) = Success start_date \<and> parse_date (argv ! 2) = Failure \<longrightarrow>
       main argv w = Exit 1 w) \<and>
    (\<forall>start_date end_date max_commits_per_day.
       parse_date (argv ! 1) = Success start_date \<and> parse_date (argv ! 2) = Success end_date \<and>
       atoi (argv ! 3) = Some max_commits_per_day \<and>
       (max_commits_per_day < 1 \<or> 50 < max_commits_per_day \<or>
        0 < compare_dates start_date end_date) \<longrightarrow>
       main argv w = Exit 1 w) \<and>
    (\<forall>start_date end_date max_commits_per_day.
       parse_date (argv ! 1) = Success start_date \<and> parse_date (argv ! 2) = Success end_date \<and>
       atoi (argv ! 3) = Some max_commits_per_day \<and>
       1 \<le> max_commits_per_day \<and> max_commits_per_day \<le> 50 \<and>
       compare_dates start_date end_date \<le> 0 \<and> all_ok w \<longrightarrow>
       (\<exists>w'. main argv w = Exit 0 w'))"
proof (intro conjI allI impI)
  assume "parse_date (argv ! 1) = Failure"
  with assms show "main argv w = Exit 1 w" by (simp add: main_def)
next
  fix s assume "parse_date (argv ! 1) = Success s \<and> parse_date (argv ! 2) = Failure"
  with assms show "main argv w = Exit 1 w" by (simp add: main_def)
next
  fix s e mx
  assume "parse_date (argv ! 1) = Success s \<and> parse_date (argv ! 2) = Success e \<and>
       atoi (argv ! 3) = Some mx \<and> (mx < 1 \<or> 50 < mx \<or> 0 < compare_dates s e)"
  with assms show "main argv w = Exit 1 w" by (auto simp: main_def)
next
  fix s e mx
  assume a: "parse_date (argv ! 1) = Success s \<and> parse_date (argv ! 2) = Success e \<and>
       atoi (argv ! 3) = Some mx \<and> 1 \<le> mx \<and> mx \<le> 50 \<and> compare_dates s e \<le> 0 \<and> all_ok w"
  then have ps: "parse_date (argv ! 1) = Success s" and pe: "parse_date (argv ! 2) = Success e"
    and mx: "1 \<le> mx" "mx \<le> 50" and ok: "all_ok w" by simp_all
  note bs = parse_date_Success_bounds [OF ps] and be = parse_date_Success_bounds [OF pe]
  from init_git_repo_all_ok [OF ok] obtain w1 where
    i: "init_git_repo w = (True, w1)" and ok1: "all_ok w1"
    by (cases "init_git_repo w") auto
  have "\<exists>w' t' n' v'. main_loop s e mx 0 0 [] w1 = Loop_done w' t' n' v' \<and> all_ok w'"
    using bs be mx by (intro main_loop_all_ok [OF ok1 _ _ _ _ _ _ _ ok1]) simp_all
  then obtain w' t' n' v' where "main_loop s e mx 0 0 [] w1 = Loop_done w' t' n' v'" by blast
  with a i assms have "main argv w = Exit 0 w'" by (simp add: main_def)
  then show "\<exists>w'. main argv w = Exit 0 w'" ..
qed

lemmas parse_unfold = parse_date_def sscanf_date_def scan_int_def is_space_def is_digit_def
  decimal_def INT_MIN_def INT_MAX_def

lemma main_exit_code_example:
  "main [''cyclops'', ''2024-01-05'', ''2024-01-01'', ''5''] 
      \<lparr>rand_seq = (\<lambda>i. 0), fopen_seq = (\<lambda>i. True), system_seq = (\<lambda>i. True),
       git_dir = False, activity_file = [], commands = []\<rparr> =
    Exit 1 \<lparr>rand_seq = (\<lambda>i. 0), fopen_seq = (\<lambda>i. True), system_seq = (\<lambda>i. True),
       git_dir = False, activity_file = [], commands = []\<rparr> \<and>
   (\<exists>w'. main [''cyclops'', ''2024-01-01'', ''2024-01-03'', ''1'']
      \<lparr>rand_seq = (\<lambda>i. 0), fopen_seq = (\<lambda>i. True), system_seq = (\<lambda>i. True),
       git_dir = False, activity_file = [], commands = []\<rparr> = Exit 0 w')"
proof -
  let ?w = "\<lparr>rand_seq = (\<lambda>i. 0), fopen_seq = (\<lambda>i. True), system_seq = (\<lambda>i. True),
       git_dir = False, activity_file = [], commands = []\<rparr>"
  have p: "parse_date ''2024-01-05'' = Success \<lparr>year = 2024, month = 1, day = 5\<rparr>"
    "parse_date ''2024-01-01'' = Success \<lparr>year = 2024, month = 1, day = 1\<rparr>"
    "parse_date ''2024-01-03'' = Success \<lparr>year = 2024, month = 1, day = 3\<rparr>"
    "atoi ''5'' = Some 5" "atoi ''1'' = Some 1"
    by (simp_all add: parse_unfold atoi_def)
  have ok: "all_ok ?w" by (simp add: all_ok_def)
  from main_exit_code [of "[''cyclops'', ''2024-01-05'', ''2024-01-01'', ''5'']" ?w] p
  have 1: "main [''cyclops'', ''2024-01-05'', ''2024-01-01'', ''5''] ?w = Exit 1 ?w"
    by (simp add: compare_dates_def)
  from main_exit_code [of "[''cyclops'', ''2024-01-01'', ''2024-01-03'', ''1'']" ?w] p ok
  have 2: "\<exists>w'. main [''cyclops'', ''2024-01-01'', ''2024-01-03'', ''1''] ?w = Exit 0 w'"
    by (simp add: compare_dates_def)
  from 1 2 show ?thesis by blast
qed

text \<open>
  Claim C4 says that \<open>main\<close> exits with code 1 whenever the validation of the arguments
  fails, a \<open>max_commits_per_day\<close> outside 1..50 and a year outside 1900..2100 included.
  The source checks the values that \<open>atoi\<close> and \<open>sscanf\<close> return
  (its message: \<open>max_commits_per_day must be between 1 and 50\<close>), but not that the
  numeral fits an \<open>int\<close>. The third argument \<open>4294967301\<close> is outside 1..50 and the
  year \<open>4294969320\<close> is outside 1900..2100; on both the conversion is undefined
  behaviour, so \<open>main\<close> is not bound to exit with code 1: its result is
  \<open>Main_undefined\<close>, in every world. (A conversion that keeps the low 32 bits reads
  5 and 2024, which pass the checks.)
\<close>

theorem main_overflow_undefined:
  "atoi ''4294967301'' = None \<and>
   main [''cyclops'', ''2024-01-01'', ''2024-01-03'', ''4294967301''] w = Main_undefined \<and>
   parse_date ''4294969320-01-01'' = Undefined \<and>
   main [''cyclops'', ''4294969320-01-01'', ''2024-01-03'', ''5''] w = Main_undefined"
proof -
  have a: "atoi ''4294967301'' = None"
    by (simp add: parse_unfold atoi_def)
  have p: "parse_date ''4294969320-01-01'' = Undefined"
    "parse_date ''2024-01-01'' = Success \<lparr>year = 2024, month = 1, day = 1\<rparr>"
    "parse_date ''2024-01-03'' = Success \<lparr>year = 2024, month = 1, day = 3\<rparr>"
    by (simp_all add: parse_unfold)
  from a p show ?thesis by (simp add: main_def)
qed

theorem main_overflow_undefined_witness:
  "main [''cyclops'', ''2024-01-01'', ''2024-01-03'', ''4294967301'']
      \<lparr>rand_seq = (\<lambda>i. 0), fopen_seq = (\<lambda>i. True), system_seq = (\<lambda>i. True),
       git_dir = False, activity_file = [], commands = []\<rparr> = Main_undefined \<and>
   main [''cyclops'', ''4294969320-01-01'', ''2024-01-03'', ''5'']
      \<lparr>rand_seq = (\<lambda>i. 0), fopen_seq = (\<lambda>i. True), system_seq = (\<lambda>i. True),
       git_dir = False, activity_file = [], commands = []\<rparr> = Main_undefined"
  using main_overflow_undefined [of
      "\<lparr>rand_seq = (\<lambda>i. 0), fopen_seq = (\<lambda>i. True), system_seq = (\<lambda>i. True),
       git_dir = False, activity_file = [], commands = []\<rparr>"]
  by simp

section \<open>Forged timestamps\<close>

lemma create_commit_forged:
  "list_all forged_time_ok (commands w) \<Longrightarrow>
     list_all forged_time_ok (commands (snd (create_commit date n w)))"
  using create_commit_commands [of date n w] by auto

lemma commit_loop_forged:
  "list_all forged_time_ok (commands w) \<Longrightarrow>
     list_all forged_time_ok (commands (snd (commit_loop date i k w)))"
proof (induction date i k w rule: commit_loop.induct)
  case (1 date i k w)
  show ?case
  proof (cases "i \<le> k")
    case True
    obtain b w' where c: "create_commit date i w = (b, w')" by (cases "create_commit date i w")
    from create_commit_forged [OF "1.prems", of date i] c
    have ok: "list_all forged_time_ok (commands w')" by simp
    show ?thesis
    proof (cases b)
      case True
      then have "b = True" by simp
      from "1.IH" [OF \<open>i \<le> k\<close> c [symmetric] this ok] c True \<open>i \<le> k\<close> show ?thesis
        by (subst commit_loop.simps) simp
    next
      case False
      with c ok \<open>i \<le> k\<close> show ?thesis by (subst commit_loop.simps) simp
    qed
  next
    case False
    with "1.prems" show ?thesis by (subst commit_loop.simps) simp
  qed
qed

lemma c_rand_commands: "commands (snd (c_rand w)) = commands w"
  by (simp add: c_rand_def)

lemma main_loop_forged:
  "list_all forged_time_ok (commands w) \<Longrightarrow> commit_times_ok (main_loop c e mx t n v w)"
proof (induction c arbitrary: t n v w rule: date_loop_induct [where e = e])
  case (1 c)
  show ?case
  proof (cases "compare_dates c e \<le> 0")
    case True
    let ?k = "c_rem (int (rand_seq w 0)) (mx + 1)"
    let ?res = "if ?k > 0 then commit_loop c 1 ?k (snd (c_rand w)) else (True, snd (c_rand w))"
    have ok: "list_all forged_time_ok (commands (snd ?res))"
      using commit_loop_forged [of "snd (c_rand w)" c 1 ?k] "1.prems"
      by (simp add: c_rand_commands)
    have rec: "\<And>c'. increment_date c = Some c' \<Longrightarrow>
        commit_times_ok (main_loop c' e mx (t + ?k) (n + 1) (v @ [c]) (snd ?res))"
      using "1.IH" [OF True _ ok] by blast
    show ?thesis
      unfolding main_loop_step [OF True] Let_def
      using ok rec by (auto simp: commit_times_ok_def split: option.splits)
  next
    case False
    with "1.prems" show ?thesis by (simp add: main_loop_exit commit_times_ok_def)
  qed
qed

lemma init_git_repo_forged:
  "list_all forged_time_ok (commands w) \<Longrightarrow>
     list_all forged_time_ok (commands (snd (init_git_repo w)))"
  by (simp add: init_git_repo_def c_system_def Let_def split: prod.splits)

lemma main_loop_forged_failed:
  "list_all forged_time_ok (commands w) \<Longrightarrow> main_loop c e mx t n v w = Loop_failed w' \<Longrightarrow>
     list_all forged_time_ok (commands w')"
  using main_loop_forged [of w c e mx t n v] by (simp add: commit_times_ok_def)

lemma main_loop_forged_done:
  "list_all forged_time_ok (commands w) \<Longrightarrow> main_loop c e mx t n v w = Loop_done w' t' n' v' \<Longrightarrow>
     list_all forged_time_ok (commands w')"
  using main_loop_forged [of w c e mx t n v] by (simp add: commit_times_ok_def)

lemma main_forged:
  assumes "list_all forged_time_ok (commands w)" "main argv w = Exit code w'"
  shows "list_all forged_time_ok (commands w')"
proof -
  obtain b w1 where i: "init_git_repo w = (b, w1)" by (cases "init_git_repo w")
  with init_git_repo_forged [OF assms(1)] have ok1: "list_all forged_time_ok (commands w1)"
    by simp
  from assms i ok1 show ?thesis
    by (auto simp: main_def split: if_splits parse_result.splits option.splits
        loop_result.splits bool.splits
        dest: main_loop_forged_failed [OF ok1] main_loop_forged_done [OF ok1])
qed

text \<open>
  Claim C9. For every world (so for every state of the random generator), every date and
  every commit number: the \<open>git commit\<close> commands that \<open>create_commit\<close> issues carry an
  hour in 8..21 and a minute in 0..59 (if the commands issued before do, those issued
  after do); when \<open>create_commit\<close> succeeds, it has issued \<open>git add\<close> and then one
  \<open>git commit\<close> for its date, with the hour in 8..21 and the minute in 0..59; and so
  every \<open>git commit\<close> that a run of \<open>main\<close> has issued when it exits carries an hour in
  8..21 and a minute in 0..59.
\<close>

theorem create_commit_forged_time:
  "((\<forall>c \<in> set (commands w). forged_time_ok c) \<longrightarrow>
      (\<forall>c \<in> set (commands (snd (create_commit date n w))). forged_time_ok c)) \<and>
   (fst (create_commit date n w) \<longrightarrow>
      (\<exists>hour minute message.
         commands (snd (create_commit date n w)) =
           commands w @ [Git_add, Git_commit date hour minute message] \<and>
         8 \<le> hour \<and> hour \<le> 21 \<and> 0 \<le> minute \<and> minute \<le> 59)) \<and>
   ((\<forall>c \<in> set (commands w). forged_time_ok c) \<and> main argv w = Exit code w' \<longrightarrow>
      (\<forall>c \<in> set (commands w'). forged_time_ok c))"
proof -
  from create_commit_commands [of date n w] obtain hour minute message where
    b: "8 \<le> hour" "hour \<le> 21" "0 \<le> minute" "minute \<le> 59" and
    c: "commands (snd (create_commit date n w)) =
     (if \<not> fopen_seq w 0 then commands w
      else if \<not> system_seq w 0 then commands w @ [Git_add]
      else commands w @ [Git_add, Git_commit date hour minute message])" by blast
  have 1: "(\<forall>c \<in> set (commands w). forged_time_ok c) \<longrightarrow>
      (\<forall>c \<in> set (commands (snd (create_commit date n w))). forged_time_ok c)"
    unfolding c using b by auto
  have 2: "fst (create_commit date n w) \<longrightarrow>
      (\<exists>hour minute message.
         commands (snd (create_commit date n w)) =
           commands w @ [Git_add, Git_commit date hour minute message] \<and>
         8 \<le> hour \<and> hour \<le> 21 \<and> 0 \<le> minute \<and> minute \<le> 59)"
    unfolding c using b by (auto simp: create_commit_result)
  have 3: "(\<forall>c \<in> set (commands w). forged_time_ok c) \<and> main argv w = Exit code w' \<longrightarrow>
      (\<forall>c \<in> set (commands w'). forged_time_ok c)"
    using main_forged [of w argv code w'] by (simp add: list_all_iff)
  from 1 2 3 show ?thesis by blast
qed

theorem create_commit_forged_time_witness:
  "\<exists>hour minute message.
     commands (snd (create_commit \<lparr>year = 2024, month = 1, day = 1\<rparr> 1
        \<lparr>rand_seq = (\<lambda>i. 1000 + 7 * i), fopen_seq = (\<lambda>i. True), system_seq = (\<lambda>i. True),
         git_dir = True, activity_file = [], commands = []\<rparr>)) =
       [Git_add, Git_commit \<lparr>year = 2024, month = 1, day = 1\<rparr> hour minute message] \<and>
     8 \<le> hour \<and> hour \<le> 21 \<and> 0 \<le> minute \<and> minute \<le> 59"
  using create_commit_forged_time [of
        "\<lparr>rand_seq = (\<lambda>i. 1000 + 7 * i), fopen_seq = (\<lambda>i. True), system_seq = (\<lambda>i. True),
         git_dir = True, activity_file = [], commands = []\<rparr>"
        "\<lparr>year = 2024, month = 1, day = 1\<rparr>" 1]
  by (simp add: create_commit_result)

end
